theory Spec2Isabelle
  imports Main
begin

section \<open>A shallow embedding of \<open>BPETokenizer\<close> (\<open>src/rag/tokenizer_advanced.py\<close>)\<close>

text \<open>
  Python strings are modelled as \<^typ>\<open>string\<close>: a text is a list of code points below 256
  (ASCII and Latin-1), one \<^typ>\<open>char\<close> per code point. A symbol of the tokenizer is a
  Python string, hence a \<^typ>\<open>string\<close> too, and a split is a list of symbols.
  Python integers are \<^typ>\<open>int\<close>; counts that start at zero and only grow are \<^typ>\<open>nat\<close>.
  The fields \<open>byte_encoder\<close> and \<open>byte_decoder\<close> are written by \<open>__init__\<close> and read by
  no method of the class; they are left out. Printing (\<open>verbose\<close>) is left out as well.
\<close>

subsection \<open>Dictionaries\<close>

text \<open>
  A Python \<open>dict\<close> (and \<open>Counter\<close>, \<open>defaultdict\<close>) keeps its keys in insertion order and
  the code iterates over them, so a dictionary is an association list with distinct keys.
  \<open>d[k] = v\<close> overwrites the value in place when \<open>k\<close> is present and appends the entry
  otherwise. Reading is \<^const>\<open>map_of\<close>.
\<close>

type_synonym ('k, 'v) dict = "('k \<times> 'v) list"

fun dict_set :: "('k, 'v) dict \<Rightarrow> 'k \<Rightarrow> 'v \<Rightarrow> ('k, 'v) dict" where
  "dict_set [] k v = [(k, v)]"
| "dict_set ((k', v') # d) k v =
     (if k' = k then (k', v) # d else (k', v') # dict_set d k v)"

text \<open>\<open>d[k] += n\<close> on a \<open>Counter\<close> or a \<open>defaultdict(int)\<close>: a missing key counts as 0.\<close>

definition dict_add :: "('k, nat) dict \<Rightarrow> 'k \<Rightarrow> nat \<Rightarrow> ('k, nat) dict" where
  "dict_add d k n = dict_set d k ((case map_of d k of None \<Rightarrow> 0 | Some m \<Rightarrow> m) + n)"

datatype error = KeyError string | AttributeError string

subsection \<open>Character classes of Python's \<open>str\<close> and \<open>re\<close>, on code points below 256\<close>

definition code_point :: "char \<Rightarrow> nat" where
  "code_point c = of_char c"

text \<open>\<open>str.isalnum\<close>: digits, ASCII letters, and the letters and numeric signs of Latin-1.\<close>

definition isalnum :: "char \<Rightarrow> bool" where
  "isalnum c = (let n = code_point c in
     (48 \<le> n \<and> n \<le> 57) \<or> (65 \<le> n \<and> n \<le> 90) \<or> (97 \<le> n \<and> n \<le> 122) \<or>
     n = 170 \<or> n = 178 \<or> n = 179 \<or> n = 181 \<or> n = 185 \<or> n = 186 \<or>
     (188 \<le> n \<and> n \<le> 190) \<or> (192 \<le> n \<and> n \<le> 214) \<or>
     (216 \<le> n \<and> n \<le> 246) \<or> (248 \<le> n \<and> n \<le> 255))"

text \<open>The class \<open>\w\<close> of a \<open>str\<close> pattern: alphanumeric, or the underscore.\<close>

definition is_word :: "char \<Rightarrow> bool" where
  "is_word c = (isalnum c \<or> c = CHR ''_'')"

text \<open>The class \<open>\s\<close> of a \<open>str\<close> pattern: Unicode whitespace.\<close>

definition is_space :: "char \<Rightarrow> bool" where
  "is_space c = (let n = code_point c in
     (9 \<le> n \<and> n \<le> 13) \<or> (28 \<le> n \<and> n \<le> 32) \<or> n = 133 \<or> n = 160)"

text \<open>\<open>str.lower\<close>: the upper-case letters of ASCII and Latin-1 move up by 32.\<close>

definition lower_char :: "char \<Rightarrow> char" where
  "lower_char c = (let n = code_point c in
     if (65 \<le> n \<and> n \<le> 90) \<or> (192 \<le> n \<and> n \<le> 214) \<or> (216 \<le> n \<and> n \<le> 222)
     then char_of (n + 32) else c)"

definition lower :: "string \<Rightarrow> string" where
  "lower text = map lower_char text"

subsection \<open>\<open>_pre_tokenize\<close>\<close>

text \<open>
  \<open>re.findall(r'\w+|[^\w\s]', s)\<close>: at each position the first alternative takes the
  longest run of \<open>\w\<close> characters (at least one); failing that, the second takes a single
  character that is neither \<open>\w\<close> nor \<open>\s\<close>; failing both, the scan moves on by one
  character. Matches do not overlap.
\<close>

function findall :: "string \<Rightarrow> string list" where
  "findall [] = []"
| "findall (c # cs) =
     (if is_word c then (c # takeWhile is_word cs) # findall (dropWhile is_word cs)
      else if \<not> is_space c then [c] # findall cs
      else findall cs)"
  by pat_completeness auto
termination
  by (relation "measure length") (auto simp: less_Suc_eq_le length_dropWhile_le)

definition pre_tokenize :: "string \<Rightarrow> string list" where
  "pre_tokenize text = findall (lower text)"

text \<open>
  The partition that the specification describes, for a given class of run characters:
  the segments are, in order, the maximal runs of run characters (a run is not empty, and
  it ends at the end of the text or before a character outside the class) and the single
  characters that are neither run characters nor whitespace; whitespace yields nothing.
\<close>

inductive segmentation :: "(char \<Rightarrow> bool) \<Rightarrow> string \<Rightarrow> string list \<Rightarrow> bool"
  for run_char :: "char \<Rightarrow> bool" where
  seg_end: "segmentation run_char [] []"
| seg_space: "is_space c \<Longrightarrow> segmentation run_char cs segs
     \<Longrightarrow> segmentation run_char (c # cs) segs"
| seg_symbol: "\<not> run_char c \<Longrightarrow> \<not> is_space c \<Longrightarrow> segmentation run_char cs segs
     \<Longrightarrow> segmentation run_char (c # cs) ([c] # segs)"
| seg_run: "r \<noteq> [] \<Longrightarrow> list_all run_char r
     \<Longrightarrow> (case cs of [] \<Rightarrow> True | c # _ \<Rightarrow> \<not> run_char c)
     \<Longrightarrow> segmentation run_char cs segs
     \<Longrightarrow> segmentation run_char (r @ cs) (r # segs)"

subsection \<open>The merge sweep\<close>

text \<open>
  The inner \<open>while i < len(split)\<close> loop of \<open>train\<close> and of \<open>_tokenize_word\<close>: one sweep
  from left to right that replaces each adjacent occurrence of the pair by the joined
  symbol and steps over both, and copies any other symbol. \<open>list(word)\<close> is
  \<open>chars_of word\<close>.
\<close>

fun merge_pair :: "string \<times> string \<Rightarrow> string list \<Rightarrow> string list" where
  "merge_pair bp (a # b # rest) =
     (if (a, b) = bp then (fst bp @ snd bp) # merge_pair bp rest
      else a # merge_pair bp (b # rest))"
| "merge_pair bp [a] = [a]"
| "merge_pair bp [] = []"

definition chars_of :: "string \<Rightarrow> string list" where
  "chars_of word = map (\<lambda>c. [c]) word"

subsection \<open>The tokenizer object\<close>

text \<open>
  \<open>inv_vocab\<close> is not set by \<open>__init__\<close>: the attribute exists only after \<open>train\<close> or
  \<open>load\<close>, hence the option.
\<close>

record tokenizer =
  vocab_size :: int
  vocab :: "(string, int) dict"
  merges :: "(string \<times> string) list"
  inv_vocab :: "(int, string) dict option"

definition pad_token :: string where "pad_token = ''<|pad|>''"
definition unk_token :: string where "unk_token = ''<|unk|>''"
definition bos_token :: string where "bos_token = ''<|bos|>''"
definition eos_token :: string where "eos_token = ''<|eos|>''"

definition special_tokens :: "string list" where
  "special_tokens = [pad_token, unk_token, bos_token, eos_token]"

definition init :: "int \<Rightarrow> tokenizer" where
  "init n = \<lparr>vocab_size = n, vocab = [], merges = [], inv_vocab = None\<rparr>"

subsection \<open>\<open>train\<close>\<close>

text \<open>\<open>word_freqs.update(words)\<close> for each text, on a \<open>Counter\<close> that starts empty.\<close>

definition counter_update :: "(string, nat) dict \<Rightarrow> string list \<Rightarrow> (string, nat) dict" where
  "counter_update wfs words = fold (\<lambda>w d. dict_add d w 1) words wfs"

definition word_freqs :: "string list \<Rightarrow> (string, nat) dict" where
  "word_freqs texts = fold (\<lambda>text wfs. counter_update wfs (pre_tokenize text)) texts []"

text \<open>The initial vocabulary: the special tokens, then each character not yet listed.\<close>

definition add_chars :: "string list \<Rightarrow> string \<Rightarrow> string list" where
  "add_chars v word = fold (\<lambda>c v. if [c] \<in> set v then v else v @ [[c]]) word v"

definition init_vocab :: "(string, nat) dict \<Rightarrow> string list" where
  "init_vocab wfs = fold (\<lambda>word v. add_chars v word) (map fst wfs) special_tokens"

definition init_splits :: "(string, nat) dict \<Rightarrow> (string \<rightharpoonup> string list)" where
  "init_splits wfs = map_of (map (\<lambda>word. (word, chars_of word)) (map fst wfs))"

text \<open>Counting the adjacent pairs of one split, each weighted by the word's frequency.\<close>

fun count_word ::
  "(string \<times> string, nat) dict \<Rightarrow> string list \<Rightarrow> nat \<Rightarrow> (string \<times> string, nat) dict" where
  "count_word pf (a # b # rest) freq = count_word (dict_add pf (a, b) freq) (b # rest) freq"
| "count_word pf [a] freq = pf"
| "count_word pf [] freq = pf"

text \<open>
  The loop over \<open>word_freqs.items()\<close>. \<open>splits[word]\<close> raises \<open>KeyError\<close> on a missing
  key.
\<close>

fun count_pairs ::
  "(string, nat) dict \<Rightarrow> (string \<rightharpoonup> string list) \<Rightarrow> (string \<times> string, nat) dict
     \<Rightarrow> error + (string \<times> string, nat) dict" where
  "count_pairs [] splits pf = Inr pf"
| "count_pairs ((word, freq) # wfs) splits pf =
     (case splits word of
        None \<Rightarrow> Inl (KeyError word)
      | Some split \<Rightarrow>
          if length split = 1 then count_pairs wfs splits pf
          else count_pairs wfs splits (count_word pf split freq))"

text \<open>
  \<open>max(pair_freqs, key=pair_freqs.get)\<close>: the keys are visited in insertion order and a
  later key replaces the current best only when its count is strictly greater, so the
  first key with the largest count wins.
\<close>

fun max_key :: "'k \<Rightarrow> nat \<Rightarrow> ('k, nat) dict \<Rightarrow> 'k" where
  "max_key best n [] = best"
| "max_key best n ((k, m) # d) = (if n < m then max_key k m d else max_key best n d)"

fun update_splits ::
  "string list \<Rightarrow> string \<times> string \<Rightarrow> (string \<rightharpoonup> string list)
     \<Rightarrow> error + (string \<rightharpoonup> string list)" where
  "update_splits [] bp splits = Inr splits"
| "update_splits (word # ws) bp splits =
     (case splits word of
        None \<Rightarrow> Inl (KeyError word)
      | Some split \<Rightarrow>
          if length split = 1 then update_splits ws bp splits
          else update_splits ws bp (splits(word \<mapsto> merge_pair bp split)))"

text \<open>The local state of the \<open>while\<close> loop: \<open>vocab\<close>, \<open>self.merges\<close> and \<open>splits\<close>.\<close>

record train_state =
  ts_vocab :: "string list"
  ts_merges :: "(string \<times> string) list"
  ts_splits :: "string \<rightharpoonup> string list"

text \<open>
  One pass through the loop: \<open>Inr None\<close> when the loop is left (the condition fails, or
  \<open>break\<close> on an empty \<open>pair_freqs\<close>), \<open>Inr (Some s')\<close> after a merge.
\<close>

definition train_step ::
  "int \<Rightarrow> (string, nat) dict \<Rightarrow> train_state \<Rightarrow> error + train_state option" where
  "train_step vs wfs s =
     (if int (length (ts_vocab s)) < vs then
        (case count_pairs wfs (ts_splits s) [] of
           Inl e \<Rightarrow> Inl e
         | Inr pair_freqs \<Rightarrow>
             (case pair_freqs of
                [] \<Rightarrow> Inr None
              | (p, n) # rest \<Rightarrow>
                  (let best_pair = max_key p n rest;
                       new_token = fst best_pair @ snd best_pair
                   in case update_splits (map fst wfs) best_pair (ts_splits s) of
                        Inl e \<Rightarrow> Inl e
                      | Inr splits' \<Rightarrow>
                          Inr (Some \<lparr>ts_vocab = ts_vocab s @ [new_token],
                                     ts_merges = ts_merges s @ [best_pair],
                                     ts_splits = splits'\<rparr>))))
      else Inr None)"

function train_loop ::
  "int \<Rightarrow> (string, nat) dict \<Rightarrow> train_state \<Rightarrow> error + train_state" where
  "train_loop vs wfs s =
     (case train_step vs wfs s of
        Inl e \<Rightarrow> Inl e
      | Inr None \<Rightarrow> Inr s
      | Inr (Some s') \<Rightarrow> train_loop vs wfs s')"
  by pat_completeness auto
termination
  by (relation "measure (\<lambda>(vs, wfs, s). nat (vs - int (length (ts_vocab s))))")
     (auto simp: train_step_def Let_def split: if_splits sum.splits list.splits)

text \<open>\<open>{token: idx for idx, token in enumerate(vocab)}\<close>\<close>

definition vocab_of_list :: "string list \<Rightarrow> (string, int) dict" where
  "vocab_of_list v = fold (\<lambda>(idx, token) d. dict_set d token (int idx)) (enumerate 0 v) []"

text \<open>
  \<open>{idx: token for token, idx in self.vocab.items()}\<close>, and in \<open>load\<close>
  \<open>{int(v): k for k, v in self.vocab.items()}\<close>, where \<open>int\<close> of an integer is itself.
\<close>

definition invert :: "(string, int) dict \<Rightarrow> (int, string) dict" where
  "invert d = fold (\<lambda>(token, idx) iv. dict_set iv idx token) d []"

definition train :: "tokenizer \<Rightarrow> string list \<Rightarrow> error + tokenizer" where
  "train t texts =
     (let wfs = word_freqs texts;
          s0 = \<lparr>ts_vocab = init_vocab wfs, ts_merges = merges t, ts_splits = init_splits wfs\<rparr>
      in case train_loop (vocab_size t) wfs s0 of
           Inl e \<Rightarrow> Inl e
         | Inr s \<Rightarrow>
             Inr (t\<lparr>vocab := vocab_of_list (ts_vocab s),
                    merges := ts_merges s,
                    inv_vocab := Some (invert (vocab_of_list (ts_vocab s)))\<rparr>))"

subsection \<open>\<open>_tokenize_word\<close>, \<open>encode\<close>, \<open>decode\<close>\<close>

text \<open>The loop over \<open>self.merges\<close>, left early once a single symbol remains.\<close>

fun apply_merges :: "(string \<times> string) list \<Rightarrow> string list \<Rightarrow> string list" where
  "apply_merges [] chars = chars"
| "apply_merges (m # ms) chars =
     (let new_chars = merge_pair m chars
      in if length new_chars = 1 then new_chars else apply_merges ms new_chars)"

definition tokenize_word :: "tokenizer \<Rightarrow> string \<Rightarrow> string list" where
  "tokenize_word t word =
     (if merges t = [] then chars_of word else apply_merges (merges t) (chars_of word))"

text \<open>
  One token of \<open>encode\<close>: its id when it is in the vocabulary, else
  \<open>self.vocab[self.unk_token]\<close>, which raises \<open>KeyError\<close> when that key is missing too.
\<close>

definition encode_token :: "tokenizer \<Rightarrow> string \<Rightarrow> error + int" where
  "encode_token t token =
     (case map_of (vocab t) token of
        Some i \<Rightarrow> Inr i
      | None \<Rightarrow>
          (case map_of (vocab t) unk_token of
             Some u \<Rightarrow> Inr u
           | None \<Rightarrow> Inl (KeyError unk_token)))"

fun encode_tokens :: "tokenizer \<Rightarrow> int list \<Rightarrow> string list \<Rightarrow> error + int list" where
  "encode_tokens t tokens [] = Inr tokens"
| "encode_tokens t tokens (token # rest) =
     (case encode_token t token of
        Inl e \<Rightarrow> Inl e
      | Inr i \<Rightarrow> encode_tokens t (tokens @ [i]) rest)"

fun encode_words :: "tokenizer \<Rightarrow> int list \<Rightarrow> string list \<Rightarrow> error + int list" where
  "encode_words t tokens [] = Inr tokens"
| "encode_words t tokens (word # rest) =
     (case encode_tokens t tokens (tokenize_word t word) of
        Inl e \<Rightarrow> Inl e
      | Inr tokens' \<Rightarrow> encode_words t tokens' rest)"

definition encode :: "tokenizer \<Rightarrow> string \<Rightarrow> error + int list" where
  "encode t text = encode_words t [] (pre_tokenize text)"

text \<open>
  The loop of \<open>decode\<close> over the ids, collecting tokens; \<open>self.inv_vocab\<close> raises
  \<open>AttributeError\<close> on a tokenizer that was neither trained nor loaded.
\<close>

fun decode_ids :: "(int, string) dict \<Rightarrow> string list \<Rightarrow> int list \<Rightarrow> string list" where
  "decode_ids iv tokens [] = tokens"
| "decode_ids iv tokens (i # ids) =
     (case map_of iv i of
        Some token \<Rightarrow>
          if token \<notin> set special_tokens then decode_ids iv (tokens @ [token]) ids
          else decode_ids iv tokens ids
      | None \<Rightarrow> decode_ids iv tokens ids)"

definition decode :: "tokenizer \<Rightarrow> int list \<Rightarrow> error + string" where
  "decode t token_ids =
     (case inv_vocab t of
        None \<Rightarrow> (if token_ids = [] then Inr [] else Inl (AttributeError ''inv_vocab''))
      | Some iv \<Rightarrow> Inr (concat (decode_ids iv [] token_ids)))"

subsection \<open>\<open>save\<close> and \<open>load\<close>\<close>

text \<open>
  The persisted record is the JSON object that \<open>json.dump\<close> writes and \<open>json.load\<close> reads
  back: an object whose fields, when present, have the types of the persisted format
  (a mapping from strings to integers, a sequence of pairs of strings, an integer). A field
  may be absent. The JSON text itself and the file system are not modelled.
\<close>

record persisted =
  p_vocab :: "(string, int) dict option"
  p_merges :: "(string \<times> string) list option"
  p_vocab_size :: "int option"

definition save :: "tokenizer \<Rightarrow> persisted" where
  "save t = \<lparr>p_vocab = Some (vocab t), p_merges = Some (merges t),
             p_vocab_size = Some (vocab_size t)\<rparr>"

text \<open>\<open>data['vocab']\<close>, \<open>data['merges']\<close> and \<open>data['vocab_size']\<close> are read in this order.\<close>

definition load :: "tokenizer \<Rightarrow> persisted \<Rightarrow> error + tokenizer" where
  "load t data =
     (case p_vocab data of
        None \<Rightarrow> Inl (KeyError ''vocab'')
      | Some v \<Rightarrow>
          (case p_merges data of
             None \<Rightarrow> Inl (KeyError ''merges'')
           | Some ms \<Rightarrow>
               (case p_vocab_size data of
                  None \<Rightarrow> Inl (KeyError ''vocab_size'')
                | Some n \<Rightarrow>
                    Inr (t\<lparr>vocab := v, merges := ms, vocab_size := n,
                           inv_vocab := Some (invert v)\<rparr>))))"

subsection \<open>Properties of vocabularies and of the training state\<close>

text \<open>The ids of a vocabulary of size \<open>n\<close> are exactly \<open>0 \<dots> n - 1\<close>.\<close>

definition contiguous_ids :: "(string, int) dict \<Rightarrow> bool" where
  "contiguous_ids d \<longleftrightarrow> snd ` set d = {0 ..< int (length d)}"

text \<open>The vocabulary is no larger than the configured \<open>vocab_size\<close>.\<close>

definition within_target :: "tokenizer \<Rightarrow> bool" where
  "within_target t \<longleftrightarrow> int (length (vocab t)) \<le> vocab_size t"

text \<open>
  A word that the pre-tokenizer can return: a single character, or word characters only.
\<close>

definition word_like :: "string \<Rightarrow> bool" where
  "word_like w \<longleftrightarrow> length w = 1 \<or> (\<forall>c \<in> set w. is_word c)"

text \<open>
  The invariant of the \<open>while\<close> loop of \<open>train\<close>. \<open>splits_of\<close> is the set of the current
  splits of the words of the corpus and \<open>adjacent\<close> the set of the adjacent pairs of a
  split. The splits are \<open>aligned\<close> when a string is cut in the same way wherever it
  occurs between two symbol boundaries, and a token is \<open>whole\<close> when it is a single symbol
  wherever its string occurs between two symbol boundaries.
\<close>

definition splits_of :: "(string, nat) dict \<Rightarrow> (string \<rightharpoonup> string list) \<Rightarrow> string list set" where
  "splits_of wfs splits = {sp. \<exists>w \<in> fst ` set wfs. splits w = Some sp}"

definition adjacent :: "string list \<Rightarrow> (string \<times> string) set" where
  "adjacent sp = {(a, b). \<exists>p q. sp = p @ [a, b] @ q}"

definition aligned :: "string list set \<Rightarrow> bool" where
  "aligned S \<longleftrightarrow>
     (\<forall>sp1 \<in> S. \<forall>sp2 \<in> S. \<forall>p1 m1 q1 p2 m2 q2.
        sp1 = p1 @ m1 @ q1 \<and> sp2 = p2 @ m2 @ q2 \<and> concat m1 = concat m2 \<longrightarrow> m1 = m2)"

definition whole :: "string list set \<Rightarrow> string \<Rightarrow> bool" where
  "whole S T \<longleftrightarrow> (\<forall>sp \<in> S. \<forall>p m q. sp = p @ m @ q \<and> concat m = T \<longrightarrow> m = [T])"

definition train_inv :: "(string, nat) dict \<Rightarrow> train_state \<Rightarrow> bool" where
  "train_inv wfs s \<longleftrightarrow>
     (\<forall>w \<in> fst ` set wfs. ts_splits s w \<noteq> None) \<and>
     aligned (splits_of wfs (ts_splits s)) \<and>
     (\<forall>T \<in> set (ts_vocab s). whole (splits_of wfs (ts_splits s)) T) \<and>
     distinct (ts_vocab s)"

section \<open>Evaluation rules\<close>

lemmas char_class_defs =
  lower_def lower_char_def code_point_def is_word_def isalnum_def is_space_def
  char_of_def bit_Suc_0_iff

section \<open>The merge sweep keeps the characters\<close>

lemma concat_merge_pair: "concat (merge_pair bp xs) = concat xs"
  by (induction bp xs rule: merge_pair.induct) auto

lemma concat_apply_merges: "concat (apply_merges ms xs) = concat xs"
  by (induction ms arbitrary: xs) (simp_all add: Let_def concat_merge_pair)

lemma concat_chars_of: "concat (chars_of w) = w"
  by (induction w) (simp_all add: chars_of_def)

text \<open>
  Claim C10. For every tokenizer state (every merge sequence) and every word, joining the
  symbols that \<open>_tokenize_word\<close> returns gives back the word: the sweeps only join
  adjacent symbols.
\<close>

theorem tokenize_word_concat: "concat (tokenize_word t word) = word"
  by (simp add: tokenize_word_def concat_apply_merges concat_chars_of)

section \<open>The pre-tokenizer\<close>

lemma space_not_alnum: "is_space c \<Longrightarrow> \<not> isalnum c"
  unfolding is_space_def isalnum_def Let_def by arith

lemma space_not_word: "is_space c \<Longrightarrow> \<not> is_word c"
proof -
  have u: "\<not> is_space CHR ''_''" by (simp add: is_space_def code_point_def)
  show "is_space c \<Longrightarrow> \<not> is_word c"
    using u space_not_alnum by (auto simp: is_word_def)
qed

lemma segmentation_findall: "segmentation is_word s (findall s)"
proof (induction s rule: findall.induct)
  case 1
  show ?case by (simp add: seg_end)
next
  case (2 c cs)
  show ?case
  proof (cases "is_word c")
    case True
    let ?r = "c # takeWhile is_word cs"
    let ?rest = "dropWhile is_word cs"
    have a: "list_all is_word ?r"
      using True by (simp add: list_all_iff) (meson set_takeWhileD)
    have b: "case ?rest of [] \<Rightarrow> True | c' # _ \<Rightarrow> \<not> is_word c'"
      by (simp add: dropWhile_eq_Cons_conv split: list.splits)
    have "segmentation is_word (?r @ ?rest) (?r # findall ?rest)"
      using a b 2(1)[OF True] by (intro seg_run) simp_all
    then show ?thesis using True by simp
  next
    case False
    then show ?thesis
      using 2 by (cases "is_space c") (auto intro: seg_space seg_symbol)
  qed
qed

lemma findall_run:
  assumes "r \<noteq> []" "list_all is_word r" "case cs of [] \<Rightarrow> True | c # _ \<Rightarrow> \<not> is_word c"
  shows "findall (r @ cs) = r # findall cs"
proof -
  obtain a r' where r: "r = a # r'" using assms(1) by (cases r) auto
  have all: "\<forall>x\<in>set r'. is_word x" and a: "is_word a"
    using assms(2) unfolding r by (simp_all add: list_all_iff)
  have t: "takeWhile is_word (r' @ cs) = r'"
    using all assms(3) by (cases cs) simp_all
  have d: "dropWhile is_word (r' @ cs) = cs"
    using all assms(3) by (cases cs) simp_all
  show ?thesis using a unfolding r by (simp add: t d)
qed

lemma segmentation_unique: "segmentation is_word s segs \<Longrightarrow> segs = findall s"
proof (induction rule: segmentation.induct)
  case seg_end
  show ?case by simp
next
  case (seg_space c cs segs)
  then show ?case by (simp add: space_not_word)
next
  case (seg_symbol c cs segs)
  then show ?case by simp
next
  case (seg_run r cs segs)
  then show ?case by (simp add: findall_run)
qed

text \<open>
  Claim C9, as stated: the segments are the maximal runs of alphanumeric characters and
  the single characters that are neither alphanumeric nor whitespace. It fails on
  \<open>a_b\<close>: the underscore belongs to \<open>\w\<close>, so the pre-tokenizer returns the one segment
  \<open>a_b\<close>, which is not a run of alphanumeric characters.
\<close>

theorem pre_tokenize_alnum_counterexample:
  "\<not> segmentation isalnum (lower ''a_b'') (pre_tokenize ''a_b'')"
proof
  assume "segmentation isalnum (lower ''a_b'') (pre_tokenize ''a_b'')"
  then have s: "segmentation isalnum ''a_b'' [''a_b'']"
    by (simp add: pre_tokenize_def char_class_defs)
  have a: "isalnum CHR ''a''" and sp: "\<not> is_space CHR ''a''" and u: "\<not> isalnum CHR ''_''"
    by (simp_all add: isalnum_def is_space_def code_point_def)
  from s show False
  proof (rule segmentation.cases)
    fix c cs segs
    assume "''a_b'' = c # cs" "is_space c"
    then show False using sp by simp
  next
    fix c cs segs
    assume "''a_b'' = c # cs" "\<not> isalnum c"
    then show False using a by simp
  next
    fix r cs segs
    assume "[''a_b''] = r # segs" "list_all isalnum r"
    then have "list_all isalnum ''a_b''" by simp
    then show False using u by simp
  qed simp
qed

text \<open>
  Claim C9, amended. For every text, the pre-tokenizer lowercases the text and returns, in
  order, exactly the maximal runs of word characters (alphanumeric characters or the
  underscore) and the single characters that are neither word characters nor whitespace;
  whitespace is discarded. The list it returns is the only segmentation of the lowercased
  text.
\<close>

theorem pre_tokenize_segmentation:
  "segmentation is_word (lower text) segs \<longleftrightarrow> segs = pre_tokenize text"
  using segmentation_unique segmentation_findall by (auto simp: pre_tokenize_def)

theorem pre_tokenize_segmentation_witness:
  "segmentation is_word (lower ''Hi, a_b'') [''hi'', '','', ''a_b'']"
  using pre_tokenize_segmentation [of "''Hi, a_b''" "[''hi'', '','', ''a_b'']"]
  by (simp add: pre_tokenize_def char_class_defs)

section \<open>Dictionaries\<close>

lemma keys_dict_set: "fst ` set (dict_set d k v) = insert k (fst ` set d)"
proof (induction d)
  case Nil
  show ?case by simp
next
  case (Cons e d)
  obtain k' v' where e: "e = (k', v')" by (cases e)
  show ?case unfolding e using Cons by (cases "k' = k") auto
qed

lemma map_fst_dict_set:
  "map fst (dict_set d k v) = (if k \<in> fst ` set d then map fst d else map fst d @ [k])"
proof (induction d)
  case Nil
  show ?case by simp
next
  case (Cons e d)
  obtain k' v' where e: "e = (k', v')" by (cases e)
  show ?case unfolding e using Cons by (cases "k' = k") simp_all
qed

lemma distinct_dict_set: "distinct (map fst d) \<Longrightarrow> distinct (map fst (dict_set d k v))"
  by (simp add: map_fst_dict_set)

lemma dict_set_fresh: "k \<notin> fst ` set d \<Longrightarrow> dict_set d k v = d @ [(k, v)]"
proof (induction d)
  case Nil
  show ?case by simp
next
  case (Cons e d)
  obtain k' v' where e: "e = (k', v')" by (cases e)
  show ?case using Cons unfolding e by auto
qed

lemma keys_dict_add: "fst ` set (dict_add d k n) = insert k (fst ` set d)"
  by (simp add: dict_add_def keys_dict_set)

section \<open>A sweep cuts at the boundaries it leaves\<close>

text \<open>
  Where the result of a sweep has a symbol boundary, the input has one too, and the sweep
  works on both sides independently. Hence alignment and wholeness survive a sweep.
\<close>

lemma merge_pair_split:
  "merge_pair bp sp = a @ b \<Longrightarrow> \<exists>p r. sp = p @ r \<and> merge_pair bp p = a \<and> merge_pair bp r = b"
proof (induction bp sp arbitrary: a rule: merge_pair.induct)
  case (1 bp x y rest)
  show ?case
  proof (cases a)
    case Nil
    with 1(3) show ?thesis by (rule_tac x = "[]" in exI, rule_tac x = "x # y # rest" in exI) simp
  next
    case (Cons h a')
    show ?thesis
    proof (cases "(x, y) = bp")
      case True
      with 1(3) Cons have "merge_pair bp rest = a' @ b" and h: "h = fst bp @ snd bp" by auto
      from 1(1)[OF True this(1)] obtain p r where
        "rest = p @ r" "merge_pair bp p = a'" "merge_pair bp r = b" by blast
      then show ?thesis using True Cons h
        by (rule_tac x = "x # y # p" in exI, rule_tac x = r in exI) auto
    next
      case False
      with 1(3) Cons have "merge_pair bp (y # rest) = a' @ b" and h: "h = x" by auto
      from 1(2)[OF False this(1)] obtain p r where
        pr: "y # rest = p @ r" "merge_pair bp p = a'" "merge_pair bp r = b" by blast
      have "merge_pair bp (x # p) = x # merge_pair bp p"
      proof (cases p)
        case Nil then show ?thesis by simp
      next
        case (Cons y' p')
        with pr(1) have "y' = y" by simp
        with Cons False show ?thesis by simp
      qed
      then show ?thesis using pr Cons h
        by (rule_tac x = "x # p" in exI, rule_tac x = r in exI) auto
    qed
  qed
next
  case (2 bp x)
  show ?case
  proof (cases a)
    case Nil
    with 2 show ?thesis by (rule_tac x = "[]" in exI, rule_tac x = "[x]" in exI) simp
  next
    case (Cons h a')
    with 2 show ?thesis by (rule_tac x = "[x]" in exI, rule_tac x = "[]" in exI) simp
  qed
next
  case (3 bp)
  then show ?case by auto
qed

lemma merge_pair_split3:
  assumes "merge_pair bp sp = p' @ m' @ q'"
  shows "\<exists>p m q. sp = p @ m @ q \<and> merge_pair bp m = m'"
proof -
  from merge_pair_split[OF assms] obtain p r where
    1: "sp = p @ r" "merge_pair bp r = m' @ q'" by blast
  from merge_pair_split[OF 1(2)] obtain m q where
    2: "r = m @ q" "merge_pair bp m = m'" by blast
  show ?thesis using 1(1) 2 by blast
qed

lemma aligned_merge: "aligned S \<Longrightarrow> aligned (merge_pair bp ` S)"
  unfolding aligned_def
proof (intro ballI allI impI)
  fix sp1 sp2 p1 m1 q1 p2 m2 q2
  assume al: "\<forall>sp1\<in>S. \<forall>sp2\<in>S. \<forall>p1 m1 q1 p2 m2 q2.
      sp1 = p1 @ m1 @ q1 \<and> sp2 = p2 @ m2 @ q2 \<and> concat m1 = concat m2 \<longrightarrow> m1 = m2"
    and 1: "sp1 \<in> merge_pair bp ` S" and 2: "sp2 \<in> merge_pair bp ` S"
    and d: "sp1 = p1 @ m1 @ q1 \<and> sp2 = p2 @ m2 @ q2 \<and> concat m1 = concat m2"
  from 1 obtain o1 where o1: "o1 \<in> S" "merge_pair bp o1 = p1 @ m1 @ q1" using d by auto
  from 2 obtain o2 where o2: "o2 \<in> S" "merge_pair bp o2 = p2 @ m2 @ q2" using d by auto
  from merge_pair_split3[OF o1(2)] obtain a1 b1 c1 where
    s1: "o1 = a1 @ b1 @ c1" "merge_pair bp b1 = m1" by blast
  from merge_pair_split3[OF o2(2)] obtain a2 b2 c2 where
    s2: "o2 = a2 @ b2 @ c2" "merge_pair bp b2 = m2" by blast
  have "concat b1 = concat b2"
    using d s1(2) s2(2) concat_merge_pair by metis
  with al o1(1) o2(1) s1(1) s2(1) have "b1 = b2" by blast
  then show "m1 = m2" using s1(2) s2(2) by simp
qed

lemma whole_merge_old: "whole S T \<Longrightarrow> whole (merge_pair bp ` S) T"
  unfolding whole_def
proof (intro ballI allI impI)
  fix sp p m q
  assume w: "\<forall>sp\<in>S. \<forall>p m q. sp = p @ m @ q \<and> concat m = T \<longrightarrow> m = [T]"
    and 1: "sp \<in> merge_pair bp ` S" and d: "sp = p @ m @ q \<and> concat m = T"
  from 1 d obtain o1 where o1: "o1 \<in> S" "merge_pair bp o1 = p @ m @ q" by auto
  from merge_pair_split3[OF o1(2)] obtain a b c where
    s: "o1 = a @ b @ c" "merge_pair bp b = m" by blast
  have "concat b = T" using d s(2) concat_merge_pair by metis
  with w o1(1) s(1) have "b = [T]" by blast
  then show "m = [T]" using s(2) by simp
qed

lemma whole_merge_new:
  assumes al: "aligned S" and occ: "sp0 \<in> S" "sp0 = p0 @ [x, y] @ q0"
  shows "whole (merge_pair (x, y) ` S) (x @ y)"
  unfolding whole_def
proof (intro ballI allI impI)
  fix sp p m q
  assume 1: "sp \<in> merge_pair (x, y) ` S" and d: "sp = p @ m @ q \<and> concat m = x @ y"
  from 1 d obtain o1 where o1: "o1 \<in> S" "merge_pair (x, y) o1 = p @ m @ q" by auto
  from merge_pair_split3[OF o1(2)] obtain a b c where
    s: "o1 = a @ b @ c" "merge_pair (x, y) b = m" by blast
  have "concat b = concat [x, y]" using d s(2) concat_merge_pair[of "(x, y)" b] by simp
  with al o1(1) occ s(1) have "b = [x, y]" unfolding aligned_def by blast
  then show "m = [x @ y]" using s(2) by auto
qed

lemma new_token_fresh:
  assumes "whole S T" "sp0 \<in> S" "sp0 = p0 @ [x, y] @ q0"
  shows "T \<noteq> x @ y"
proof
  assume "T = x @ y"
  then have "concat [x, y] = T" by simp
  with assms have "[x, y] = [T]" unfolding whole_def by blast
  then show False by simp
qed

section \<open>Pair counting, the best pair and the update of the splits\<close>

lemma adjacent_head: "(a, b) \<in> adjacent (a # b # rest)"
proof -
  have "a # b # rest = [] @ [a, b] @ rest" by simp
  then show ?thesis unfolding adjacent_def by blast
qed

lemma adjacent_tail: "adjacent sp \<subseteq> adjacent (a # sp)"
proof
  fix e assume "e \<in> adjacent sp"
  then obtain x y p q where e: "e = (x, y)" and "sp = p @ [x, y] @ q"
    unfolding adjacent_def by blast
  then have "a # sp = (a # p) @ [x, y] @ q" by simp
  then show "e \<in> adjacent (a # sp)" unfolding adjacent_def e by blast
qed

lemma subset_insert_step:
  "C \<subseteq> insert e X \<union> B \<Longrightarrow> e \<in> A \<Longrightarrow> B \<subseteq> A \<Longrightarrow> C \<subseteq> X \<union> A"
  by blast

lemma keys_count_word: "fst ` set (count_word pf sp f) \<subseteq> fst ` set pf \<union> adjacent sp"
proof (induction pf sp f rule: count_word.induct)
  case (1 pf a b rest freq)
  have "fst ` set (count_word (dict_add pf (a, b) freq) (b # rest) freq)
      \<subseteq> insert (a, b) (fst ` set pf) \<union> adjacent (b # rest)"
    using 1 unfolding keys_dict_add .
  then have "fst ` set (count_word (dict_add pf (a, b) freq) (b # rest) freq)
      \<subseteq> fst ` set pf \<union> adjacent (a # b # rest)"
    by (rule subset_insert_step) (rule adjacent_head, rule adjacent_tail)
  then show ?case by (simp only: count_word.simps)
next
  case (2 pf a freq)
  show ?case by simp
next
  case (3 pf freq)
  show ?case by simp
qed

lemma subset_Un_mono2: "P \<subseteq> Q \<union> A \<Longrightarrow> A \<subseteq> A' \<Longrightarrow> P \<subseteq> Q \<union> A'"
  by blast

lemma subset_Un_trans2: "P \<subseteq> C \<union> A \<Longrightarrow> C \<subseteq> Q \<union> B \<Longrightarrow> A \<subseteq> A' \<Longrightarrow> B \<subseteq> A' \<Longrightarrow> P \<subseteq> Q \<union> A'"
  by blast

lemma UN_image_mono: "S \<subseteq> S' \<Longrightarrow> \<Union> (f ` S) \<subseteq> \<Union> (f ` S')"
  by blast

lemma UN_image_upper: "x \<in> S \<Longrightarrow> f x \<subseteq> \<Union> (f ` S)"
  by blast

lemma count_pairs_ok:
  assumes "\<forall>w \<in> fst ` set wfs. splits w \<noteq> None"
  shows "\<exists>pf'. count_pairs wfs splits pf = Inr pf' \<and>
           fst ` set pf' \<subseteq> fst ` set pf \<union> \<Union> (adjacent ` splits_of wfs splits)"
  using assms
proof (induction wfs arbitrary: pf)
  case Nil
  show ?case by simp
next
  case (Cons e wfs)
  obtain word freq where e: "e = (word, freq)" by (cases e)
  from Cons.prems obtain split where sp: "splits word = Some split" unfolding e by auto
  have sub: "splits_of wfs splits \<subseteq> splits_of (e # wfs) splits"
    unfolding splits_of_def by auto
  have mem: "split \<in> splits_of (e # wfs) splits"
    using sp unfolding splits_of_def e by auto
  let ?A = "\<lambda>ws. \<Union> (adjacent ` splits_of ws splits)"
  have subA: "?A wfs \<subseteq> ?A (e # wfs)" using sub by (rule UN_image_mono)
  have memA: "adjacent split \<subseteq> ?A (e # wfs)" using mem by (rule UN_image_upper)
  have pre: "\<forall>w \<in> fst ` set wfs. splits w \<noteq> None" using Cons.prems by simp
  have ih: "\<exists>pf'. count_pairs wfs splits pf0 = Inr pf' \<and> fst ` set pf' \<subseteq> fst ` set pf0 \<union> ?A wfs"
    for pf0 by (rule Cons.IH[OF pre])
  show ?case
  proof (cases "length split = 1")
    case True
    from ih[of pf] obtain pf' where
      1: "count_pairs wfs splits pf = Inr pf'" and 2: "fst ` set pf' \<subseteq> fst ` set pf \<union> ?A wfs"
      by blast
    have "count_pairs (e # wfs) splits pf = Inr pf'" using True sp 1 unfolding e by simp
    moreover have "fst ` set pf' \<subseteq> fst ` set pf \<union> ?A (e # wfs)"
      using 2 subA by (rule subset_Un_mono2)
    ultimately show ?thesis by (intro exI conjI)
  next
    case False
    from ih[of "count_word pf split freq"] obtain pf' where
      1: "count_pairs wfs splits (count_word pf split freq) = Inr pf'"
      and 2: "fst ` set pf' \<subseteq> fst ` set (count_word pf split freq) \<union> ?A wfs" by blast
    have "fst ` set pf' \<subseteq> fst ` set pf \<union> ?A (e # wfs)"
      using 2 keys_count_word[of pf split freq] subA memA by (rule subset_Un_trans2)
    moreover have "count_pairs (e # wfs) splits pf = Inr pf'"
      using False sp 1 unfolding e by simp
    ultimately show ?thesis by (intro exI conjI)
  qed
qed

lemma max_key_mem: "max_key best n d \<in> insert best (fst ` set d)"
proof (induction best n d rule: max_key.induct)
  case (1 best n)
  show ?case by simp
next
  case (2 best n k m d)
  then show ?case by (cases "n < m") auto
qed

lemma update_splits_ok:
  assumes "distinct ws" "\<forall>w \<in> set ws. splits w \<noteq> None"
  shows "update_splits ws bp splits =
           Inr (\<lambda>w. if w \<in> set ws then map_option (merge_pair bp) (splits w) else splits w)"
  using assms
proof (induction ws arbitrary: splits)
  case Nil
  show ?case by simp
next
  case (Cons word ws)
  from Cons.prems obtain split where sp: "splits word = Some split" by auto
  have d: "distinct ws" and nw: "word \<notin> set ws" using Cons.prems(1) by simp_all
  show ?case
  proof (cases "length split = 1")
    case True
    then obtain a where "split = [a]" by (cases split) auto
    then have same: "map_option (merge_pair bp) (splits word) = splits word" using sp by simp
    have "\<forall>w \<in> set ws. splits w \<noteq> None" using Cons.prems(2) by simp
    with d have "update_splits ws bp splits =
        Inr (\<lambda>w. if w \<in> set ws then map_option (merge_pair bp) (splits w) else splits w)"
      by (rule Cons.IH)
    moreover have "(\<lambda>w. if w \<in> set ws then map_option (merge_pair bp) (splits w) else splits w)
        = (\<lambda>w. if w \<in> set (word # ws) then map_option (merge_pair bp) (splits w) else splits w)"
      using same by (auto simp: fun_eq_iff)
    ultimately show ?thesis using True sp by simp
  next
    case False
    let ?s = "splits(word \<mapsto> merge_pair bp split)"
    have "\<forall>w \<in> set ws. ?s w \<noteq> None" using Cons.prems(2) by simp
    with d have "update_splits ws bp ?s =
        Inr (\<lambda>w. if w \<in> set ws then map_option (merge_pair bp) (?s w) else ?s w)"
      by (rule Cons.IH)
    moreover have "(\<lambda>w. if w \<in> set ws then map_option (merge_pair bp) (?s w) else ?s w)
        = (\<lambda>w. if w \<in> set (word # ws) then map_option (merge_pair bp) (splits w) else splits w)"
      using nw sp by (auto simp: fun_eq_iff)
    ultimately show ?thesis using False sp by simp
  qed
qed

lemma splits_of_update:
  assumes "\<forall>w \<in> fst ` set wfs. splits w \<noteq> None"
  shows "splits_of wfs (\<lambda>w. if w \<in> set (map fst wfs) then map_option (merge_pair bp) (splits w)
                            else splits w)
         = merge_pair bp ` splits_of wfs splits"
proof (rule set_eqI)
  fix sp
  let ?s' = "\<lambda>w. if w \<in> set (map fst wfs) then map_option (merge_pair bp) (splits w) else splits w"
  show "sp \<in> splits_of wfs ?s' \<longleftrightarrow> sp \<in> merge_pair bp ` splits_of wfs splits"
  proof
    assume "sp \<in> splits_of wfs ?s'"
    then obtain w where w: "w \<in> fst ` set wfs" "?s' w = Some sp" unfolding splits_of_def by blast
    from w(1) assms obtain sp0 where sp0: "splits w = Some sp0" by auto
    with w have "sp = merge_pair bp sp0" by simp
    moreover have "sp0 \<in> splits_of wfs splits" using w(1) sp0 unfolding splits_of_def by blast
    ultimately show "sp \<in> merge_pair bp ` splits_of wfs splits" by blast
  next
    assume "sp \<in> merge_pair bp ` splits_of wfs splits"
    then obtain sp0 w where w: "w \<in> fst ` set wfs" "splits w = Some sp0" "sp = merge_pair bp sp0"
      unfolding splits_of_def by blast
    then have "?s' w = Some sp" by simp
    with w(1) show "sp \<in> splits_of wfs ?s'" unfolding splits_of_def by blast
  qed
qed

section \<open>One pass and the whole loop keep the invariant\<close>

lemma count_pairs_empty:
  assumes "\<forall>w \<in> fst ` set wfs. splits w \<noteq> None"
  shows "\<exists>pf. count_pairs wfs splits [] = Inr pf \<and>
           fst ` set pf \<subseteq> \<Union> (adjacent ` splits_of wfs splits)"
  using count_pairs_ok[OF assms, of "[]"] by simp

lemma train_step_cases:
  assumes inv: "train_inv wfs s" and d: "distinct (map fst wfs)"
  shows "train_step vs wfs s = Inr None \<or>
         (\<exists>bp s'. train_step vs wfs s = Inr (Some s') \<and> train_inv wfs s' \<and>
            ts_vocab s' = ts_vocab s @ [fst bp @ snd bp] \<and>
            ts_merges s' = ts_merges s @ [bp] \<and>
            int (length (ts_vocab s)) < vs)"
proof -
  let ?S = "splits_of wfs (ts_splits s)"
  have dom: "\<forall>w \<in> fst ` set wfs. ts_splits s w \<noteq> None"
    and al: "aligned ?S"
    and wh: "\<forall>T \<in> set (ts_vocab s). whole ?S T"
    and dv: "distinct (ts_vocab s)"
    using inv unfolding train_inv_def by simp_all
  from count_pairs_empty[OF dom] obtain pf where
    pf: "count_pairs wfs (ts_splits s) [] = Inr pf"
    and keys: "fst ` set pf \<subseteq> \<Union> (adjacent ` ?S)" by blast
  show ?thesis
  proof (cases "int (length (ts_vocab s)) < vs")
    case False
    then show ?thesis by (simp add: train_step_def)
  next
    case lt: True
    show ?thesis
    proof (cases pf)
      case Nil
      then show ?thesis using lt pf by (simp add: train_step_def)
    next
      case (Cons e rest)
      obtain p n where e: "e = (p, n)" by (cases e)
      define bp where "bp = max_key p n rest"
      have "bp \<in> insert p (fst ` set rest)" unfolding bp_def by (rule max_key_mem)
      then have "bp \<in> fst ` set pf" unfolding Cons e by simp
      with keys have "bp \<in> \<Union> (adjacent ` ?S)" by auto
      then obtain sp0 where sp0: "sp0 \<in> ?S" "bp \<in> adjacent sp0" by blast
      obtain x y where xy: "bp = (x, y)" by (cases bp)
      from sp0(2) obtain p0 q0 where occ: "sp0 = p0 @ [x, y] @ q0"
        unfolding adjacent_def xy by blast
      let ?sp' = "\<lambda>w. if w \<in> set (map fst wfs) then map_option (merge_pair bp) (ts_splits s w)
                       else ts_splits s w"
      have dom': "\<forall>w \<in> set (map fst wfs). ts_splits s w \<noteq> None" using dom by simp
      have upd: "update_splits (map fst wfs) bp (ts_splits s) = Inr ?sp'"
        using d dom' by (rule update_splits_ok)
      define s' where "s' = \<lparr>ts_vocab = ts_vocab s @ [fst bp @ snd bp],
                              ts_merges = ts_merges s @ [bp], ts_splits = ?sp'\<rparr>"
      have step: "train_step vs wfs s = Inr (Some s')"
        using lt pf upd unfolding train_step_def Cons e s'_def bp_def
        by (simp add: Let_def)
      have S': "splits_of wfs (ts_splits s') = merge_pair bp ` ?S"
        unfolding s'_def using splits_of_update[OF dom, of bp] by simp
      have dom2: "\<forall>w \<in> fst ` set wfs. ts_splits s' w \<noteq> None"
        using dom unfolding s'_def by auto
      have al2: "aligned (splits_of wfs (ts_splits s'))"
        unfolding S' using al by (rule aligned_merge)
      have new: "whole (merge_pair bp ` ?S) (x @ y)"
        unfolding xy using al sp0(1) occ by (rule whole_merge_new)
      have old: "whole (merge_pair bp ` ?S) T" if "T \<in> set (ts_vocab s)" for T
        using wh that whole_merge_old by blast
      have wh2: "\<forall>T \<in> set (ts_vocab s'). whole (splits_of wfs (ts_splits s')) T"
        unfolding S' using new old by (auto simp: s'_def xy)
      have fresh: "T \<noteq> x @ y" if "T \<in> set (ts_vocab s)" for T
        using wh that new_token_fresh[OF _ sp0(1) occ] by blast
      have dv2: "distinct (ts_vocab s')"
        using dv fresh by (auto simp: s'_def xy)
      have "train_inv wfs s'"
        unfolding train_inv_def using dom2 al2 wh2 dv2 by simp
      moreover have "ts_vocab s' = ts_vocab s @ [fst bp @ snd bp]"
        and "ts_merges s' = ts_merges s @ [bp]" by (simp_all add: s'_def)
      ultimately show ?thesis using step lt by blast
    qed
  qed
qed

lemma train_loop_inv:
  shows "distinct (map fst wfs) \<Longrightarrow> train_inv wfs s \<Longrightarrow>
    \<exists>s' ms. train_loop vs wfs s = Inr s' \<and> train_inv wfs s' \<and>
       ts_vocab s' = ts_vocab s @ map (\<lambda>bp. fst bp @ snd bp) ms \<and>
       ts_merges s' = ts_merges s @ ms \<and>
       int (length (ts_vocab s')) \<le> max vs (int (length (ts_vocab s)))"
proof (induction vs wfs s rule: train_loop.induct)
  case (1 vs wfs s)
  note d = "1.prems"(1) and inv = "1.prems"(2)
  from train_step_cases[OF inv d, of vs]
  consider (stop) "train_step vs wfs s = Inr None"
    | (go) bp s1 where "train_step vs wfs s = Inr (Some s1)" "train_inv wfs s1"
        "ts_vocab s1 = ts_vocab s @ [fst bp @ snd bp]" "ts_merges s1 = ts_merges s @ [bp]"
        "int (length (ts_vocab s)) < vs"
    by blast
  then show ?case
  proof cases
    case stop
    then have "train_loop vs wfs s = Inr s" by simp
    then show ?thesis using inv
      by (rule_tac x = s in exI, rule_tac x = "[]" in exI) simp
  next
    case go
    from "1.IH"[OF go(1) refl d go(2)] obtain s' ms where
      r: "train_loop vs wfs s1 = Inr s'" "train_inv wfs s'"
         "ts_vocab s' = ts_vocab s1 @ map (\<lambda>bp. fst bp @ snd bp) ms"
         "ts_merges s' = ts_merges s1 @ ms"
         "int (length (ts_vocab s')) \<le> max vs (int (length (ts_vocab s1)))"
      by blast
    have "train_loop vs wfs s = Inr s'" using go(1) r(1) by simp
    moreover have "ts_vocab s' = ts_vocab s @ map (\<lambda>bp. fst bp @ snd bp) (bp # ms)"
      using r(3) go(3) by simp
    moreover have "ts_merges s' = ts_merges s @ (bp # ms)" using r(4) go(4) by simp
    moreover have "int (length (ts_vocab s')) \<le> max vs (int (length (ts_vocab s)))"
      using r(5) go(3,5) by simp
    ultimately show ?thesis using r(2)
      by (rule_tac x = s' in exI, rule_tac x = "bp # ms" in exI) simp
  qed
qed

section \<open>The invariant holds when the loop starts\<close>

lemma findall_word_like:
  "w \<in> set (findall s) \<Longrightarrow> length w = 1 \<or> (\<forall>c \<in> set w. is_word c)"
proof (induction s rule: findall.induct)
  case 1
  then show ?case by simp
next
  case (2 c cs)
  show ?case
  proof (cases "is_word c")
    case True
    with 2(4) have "w = c # takeWhile is_word cs \<or> w \<in> set (findall (dropWhile is_word cs))"
      by simp
    then show ?thesis
    proof
      assume "w = c # takeWhile is_word cs"
      then have "\<forall>c \<in> set w. is_word c" using True by (auto dest: set_takeWhileD)
      then show ?thesis ..
    next
      assume "w \<in> set (findall (dropWhile is_word cs))"
      then show ?thesis using 2(1)[OF True] by simp
    qed
  next
    case False
    show ?thesis
    proof (cases "is_space c")
      case True
      with False 2(4) have "w \<in> set (findall cs)" by simp
      then show ?thesis using 2(3) False True by simp
    next
      case ns: False
      with False 2(4) have "w = [c] \<or> w \<in> set (findall cs)" by simp
      then show ?thesis using 2(2)[OF False] ns by auto
    qed
  qed
qed

lemma keys_counter_update:
  "fst ` set (counter_update d ws) = fst ` set d \<union> set ws"
  unfolding counter_update_def
  by (induction ws arbitrary: d) (simp_all add: keys_dict_add insert_commute Un_insert_right [symmetric] del: Un_insert_right)

lemma distinct_dict_add: "distinct (map fst d) \<Longrightarrow> distinct (map fst (dict_add d k n))"
  by (simp add: dict_add_def distinct_dict_set)

lemma distinct_counter_update:
  "distinct (map fst d) \<Longrightarrow> distinct (map fst (counter_update d ws))"
  unfolding counter_update_def
  by (induction ws arbitrary: d) (simp_all add: distinct_dict_add)

lemma word_freqs_fold:
  assumes "distinct (map fst d)" "\<forall>w \<in> fst ` set d. word_like w"
  shows "distinct (map fst (fold (\<lambda>text wfs. counter_update wfs (pre_tokenize text)) texts d)) \<and>
         (\<forall>w \<in> fst ` set (fold (\<lambda>text wfs. counter_update wfs (pre_tokenize text)) texts d).
            word_like w)"
  using assms
proof (induction texts arbitrary: d)
  case Nil
  then show ?case by simp
next
  case (Cons doc texts)
  let ?d = "counter_update d (pre_tokenize doc)"
  have 1: "distinct (map fst ?d)" using Cons.prems(1) by (rule distinct_counter_update)
  have "\<forall>w \<in> set (pre_tokenize doc). word_like w"
    unfolding pre_tokenize_def word_like_def using findall_word_like by blast
  then have 2: "\<forall>w \<in> fst ` set ?d. word_like w"
    using Cons.prems(2) unfolding keys_counter_update by blast
  show ?case using Cons.IH[OF 1 2] by simp
qed

lemma word_freqs_distinct: "distinct (map fst (word_freqs texts))"
  unfolding word_freqs_def using word_freqs_fold[of "[]" texts] by simp

lemma word_freqs_word_like: "w \<in> fst ` set (word_freqs texts) \<Longrightarrow> word_like w"
  unfolding word_freqs_def using word_freqs_fold[of "[]" texts] by auto

lemma chars_of_part:
  assumes "chars_of w = p @ m @ q"
  shows "m = chars_of (concat m)"
proof -
  from assms have "p @ (m @ q) = map (\<lambda>c. [c]) w" by (simp add: chars_of_def)
  then obtain v where "m @ q = map (\<lambda>c. [c]) v"
    unfolding append_eq_map_conv by blast
  then obtain x where "m = map (\<lambda>c. [c]) x"
    unfolding append_eq_map_conv by blast
  then have "m = chars_of x" by (simp add: chars_of_def)
  then show ?thesis by (simp add: concat_chars_of)
qed

lemma aligned_chars: "aligned (chars_of ` K)"
  unfolding aligned_def
proof (intro ballI allI impI)
  fix sp1 sp2 p1 m1 q1 p2 m2 q2
  assume "sp1 \<in> chars_of ` K" "sp2 \<in> chars_of ` K"
    and d: "sp1 = p1 @ m1 @ q1 \<and> sp2 = p2 @ m2 @ q2 \<and> concat m1 = concat m2"
  then obtain w1 w2 where "chars_of w1 = p1 @ m1 @ q1" "chars_of w2 = p2 @ m2 @ q2" by auto
  then have "m1 = chars_of (concat m1)" "m2 = chars_of (concat m2)"
    using chars_of_part by blast+
  then show "m1 = m2" using d by simp
qed

lemma special_has_angle: "T \<in> set special_tokens \<Longrightarrow> CHR ''<'' \<in> set T \<and> 1 < length T"
  by (auto simp: special_tokens_def pad_token_def unk_token_def bos_token_def eos_token_def)

lemma angle_not_word: "\<not> is_word CHR ''<''"
  by (simp add: is_word_def isalnum_def code_point_def)

lemma whole_chars_special:
  assumes wl: "\<forall>w \<in> K. word_like w" and T: "T \<in> set special_tokens"
  shows "whole (chars_of ` K) T"
  unfolding whole_def
proof (intro ballI allI impI)
  fix sp p m q
  assume "sp \<in> chars_of ` K" and d: "sp = p @ m @ q \<and> concat m = T"
  then obtain w where w: "w \<in> K" "chars_of w = p @ m @ q" by auto
  have "w = concat (p @ m @ q)" using w(2) concat_chars_of[of w] by simp
  then have weq: "w = concat p @ T @ concat q" using d by simp
  have "CHR ''<'' \<in> set w" "1 < length w"
    using special_has_angle[OF T] unfolding weq by auto
  moreover have "word_like w" using wl w(1) by blast
  ultimately have False using angle_not_word unfolding word_like_def by auto
  then show "m = [T]" ..
qed

lemma whole_chars_single: "whole (chars_of ` K) [c]"
  unfolding whole_def
proof (intro ballI allI impI)
  fix sp p m q
  assume "sp \<in> chars_of ` K" and d: "sp = p @ m @ q \<and> concat m = [c]"
  then obtain w where "chars_of w = p @ m @ q" by auto
  then have "m = chars_of (concat m)" by (rule chars_of_part)
  then show "m = [[c]]" using d by (simp add: chars_of_def)
qed

lemma add_chars_spec:
  "distinct v \<Longrightarrow> \<exists>r. add_chars v w = v @ r \<and> distinct (v @ r) \<and> (\<forall>T \<in> set r. length T = 1)"
  unfolding add_chars_def
proof (induction w arbitrary: v)
  case Nil
  then show ?case by simp
next
  case (Cons c w)
  let ?v = "if [c] \<in> set v then v else v @ [[c]]"
  have dv: "distinct ?v" using Cons.prems by simp
  from Cons.IH[OF dv] obtain r where
    r: "fold (\<lambda>c v. if [c] \<in> set v then v else v @ [[c]]) w ?v = ?v @ r"
       "distinct (?v @ r)" "\<forall>T \<in> set r. length T = 1" by blast
  show ?case
  proof (cases "[c] \<in> set v")
    case True
    with r show ?thesis by (rule_tac x = r in exI) simp
  next
    case False
    with r show ?thesis by (rule_tac x = "[c] # r" in exI) simp
  qed
qed

lemma init_vocab_fold:
  "distinct v \<Longrightarrow>
     \<exists>r. fold (\<lambda>word v. add_chars v word) ws v = v @ r \<and> distinct (v @ r) \<and>
         (\<forall>T \<in> set r. length T = 1)"
proof (induction ws arbitrary: v)
  case Nil
  then show ?case by simp
next
  case (Cons w ws)
  from add_chars_spec[OF Cons.prems, of w] obtain r1 where
    r1: "add_chars v w = v @ r1" "distinct (v @ r1)" "\<forall>T \<in> set r1. length T = 1" by blast
  from Cons.IH[OF r1(2)] obtain r2 where
    r2: "fold (\<lambda>word v. add_chars v word) ws (v @ r1) = (v @ r1) @ r2"
        "distinct ((v @ r1) @ r2)" "\<forall>T \<in> set r2. length T = 1" by blast
  show ?case using r1 r2 by (rule_tac x = "r1 @ r2" in exI) auto
qed

lemma distinct_special_tokens: "distinct special_tokens"
  by (simp add: special_tokens_def pad_token_def unk_token_def bos_token_def eos_token_def)

lemma init_vocab_spec:
  "\<exists>r. init_vocab wfs = special_tokens @ r \<and> distinct (special_tokens @ r) \<and>
       (\<forall>T \<in> set r. length T = 1)"
  unfolding init_vocab_def by (rule init_vocab_fold) (rule distinct_special_tokens)

lemma map_of_chars:
  "map_of (map (\<lambda>word. (word, chars_of word)) ws) w =
     (if w \<in> set ws then Some (chars_of w) else None)"
  by (induction ws) auto

lemma splits_of_init: "splits_of wfs (init_splits wfs) = chars_of ` (fst ` set wfs)"
  unfolding splits_of_def init_splits_def map_of_chars by auto

lemma init_inv:
  assumes wl: "\<forall>w \<in> fst ` set wfs. word_like w"
  shows "train_inv wfs \<lparr>ts_vocab = init_vocab wfs, ts_merges = ms, ts_splits = init_splits wfs\<rparr>"
proof -
  from init_vocab_spec[of wfs] obtain r where
    r: "init_vocab wfs = special_tokens @ r" "distinct (special_tokens @ r)"
       "\<forall>T \<in> set r. length T = 1" by blast
  have dom: "\<forall>w \<in> fst ` set wfs. init_splits wfs w \<noteq> None"
    unfolding init_splits_def map_of_chars by simp
  have al: "aligned (splits_of wfs (init_splits wfs))"
    unfolding splits_of_init by (rule aligned_chars)
  have wh: "whole (splits_of wfs (init_splits wfs)) T" if "T \<in> set (init_vocab wfs)" for T
  proof (cases "T \<in> set special_tokens")
    case True
    with wl show ?thesis unfolding splits_of_init by (rule whole_chars_special)
  next
    case False
    with that r have "length T = 1" by auto
    then obtain c where "T = [c]" by (cases T) auto
    then show ?thesis unfolding splits_of_init by (simp add: whole_chars_single)
  qed
  show ?thesis unfolding train_inv_def using dom al wh r(1,2) by simp
qed

section \<open>The result of \<open>train\<close>\<close>

lemma train_result:
  "\<exists>v ms. train t texts =
       Inr (t\<lparr>vocab := vocab_of_list v, merges := merges t @ ms,
              inv_vocab := Some (invert (vocab_of_list v))\<rparr>) \<and>
     distinct v \<and>
     v = init_vocab (word_freqs texts) @ map (\<lambda>bp. fst bp @ snd bp) ms \<and>
     int (length v) \<le> max (vocab_size t) (int (length (init_vocab (word_freqs texts))))"
proof -
  let ?wfs = "word_freqs texts"
  let ?s0 = "\<lparr>ts_vocab = init_vocab ?wfs, ts_merges = merges t, ts_splits = init_splits ?wfs\<rparr>"
  have inv0: "train_inv ?wfs ?s0"
    by (rule init_inv) (use word_freqs_word_like in blast)
  from train_loop_inv[OF word_freqs_distinct inv0, of "vocab_size t"] obtain s ms where
    s: "train_loop (vocab_size t) ?wfs ?s0 = Inr s" "train_inv ?wfs s"
       "ts_vocab s = ts_vocab ?s0 @ map (\<lambda>bp. fst bp @ snd bp) ms"
       "ts_merges s = ts_merges ?s0 @ ms"
       "int (length (ts_vocab s)) \<le> max (vocab_size t) (int (length (ts_vocab ?s0)))"
    by blast
  have "distinct (ts_vocab s)" using s(2) unfolding train_inv_def by simp
  moreover have "train t texts =
       Inr (t\<lparr>vocab := vocab_of_list (ts_vocab s), merges := merges t @ ms,
              inv_vocab := Some (invert (vocab_of_list (ts_vocab s)))\<rparr>)"
    using s(1,4) unfolding train_def by (simp add: Let_def)
  ultimately show ?thesis using s(3,5)
    by (rule_tac x = "ts_vocab s" in exI, rule_tac x = ms in exI) simp
qed

lemma vocab_fold:
  "distinct v \<Longrightarrow> set v \<inter> fst ` set d = {} \<Longrightarrow>
     fold (\<lambda>(idx, token) d. dict_set d token (int idx)) (enumerate n v) d
       = d @ zip v (map int [n ..< n + length v])"
proof (induction v arbitrary: n d)
  case Nil
  show ?case by simp
next
  case (Cons x v)
  have fresh: "x \<notin> fst ` set d" using Cons.prems(2) by auto
  have dv: "distinct v" using Cons.prems(1) by simp
  have disj: "set v \<inter> fst ` set (d @ [(x, int n)]) = {}" using Cons.prems by auto
  have up: "[n ..< n + length (x # v)] = n # [Suc n ..< Suc n + length v]"
    using upt_conv_Cons[of n "n + length (x # v)"] by simp
  have "fold (\<lambda>(idx, token) d. dict_set d token (int idx)) (enumerate n (x # v)) d
      = fold (\<lambda>(idx, token) d. dict_set d token (int idx)) (enumerate (Suc n) v) (d @ [(x, int n)])"
    using fresh by (simp add: dict_set_fresh)
  also have "\<dots> = (d @ [(x, int n)]) @ zip v (map int [Suc n ..< Suc n + length v])"
    using dv disj by (rule Cons.IH)
  finally show ?case unfolding up by simp
qed

lemma vocab_of_list_distinct:
  "distinct v \<Longrightarrow> vocab_of_list v = zip v (map int [0 ..< length v])"
  unfolding vocab_of_list_def using vocab_fold[of v "[]" 0] by simp

lemma vocab_of_list_keys: "distinct v \<Longrightarrow> map fst (vocab_of_list v) = v"
  by (simp add: vocab_of_list_distinct)

lemma vocab_of_list_ids: "distinct v \<Longrightarrow> map snd (vocab_of_list v) = map int [0 ..< length v]"
  by (simp add: vocab_of_list_distinct)

lemma vocab_of_list_contiguous: "distinct v \<Longrightarrow> contiguous_ids (vocab_of_list v)"
proof -
  assume d: "distinct v"
  have "snd ` set (vocab_of_list v) = set (map snd (vocab_of_list v))" by simp
  also have "\<dots> = int ` {0 ..< length v}" unfolding vocab_of_list_ids[OF d] by simp
  also have "\<dots> = {0 ..< int (length v)}" by (simp add: image_int_atLeastLessThan)
  finally show ?thesis unfolding contiguous_ids_def by (simp add: vocab_of_list_distinct d)
qed

lemma vocab_of_list_nth:
  "distinct v \<Longrightarrow> i < length v \<Longrightarrow> map_of (vocab_of_list v) (v ! i) = Some (int i)"
  using map_of_zip_nth[of v "map int [0 ..< length v]" i]
  by (simp add: vocab_of_list_distinct)

lemma special_ids:
  assumes "distinct v" "v = special_tokens @ r"
  shows "map_of (vocab_of_list v) pad_token = Some 0"
    and "map_of (vocab_of_list v) unk_token = Some 1"
    and "map_of (vocab_of_list v) bos_token = Some 2"
    and "map_of (vocab_of_list v) eos_token = Some 3"
proof -
  have l: "0 < length v" "1 < length v" "2 < length v" "3 < length v"
    using assms(2) by (simp_all add: special_tokens_def)
  have n: "v ! 0 = pad_token" "v ! 1 = unk_token" "v ! 2 = bos_token" "v ! 3 = eos_token"
    unfolding assms(2) by (simp_all add: special_tokens_def nth_append)
  show "map_of (vocab_of_list v) pad_token = Some 0"
    using vocab_of_list_nth[OF assms(1) l(1)] unfolding n by simp
  show "map_of (vocab_of_list v) unk_token = Some 1"
    using vocab_of_list_nth[OF assms(1) l(2)] unfolding n by simp
  show "map_of (vocab_of_list v) bos_token = Some 2"
    using vocab_of_list_nth[OF assms(1) l(3)] unfolding n by simp
  show "map_of (vocab_of_list v) eos_token = Some 3"
    using vocab_of_list_nth[OF assms(1) l(4)] unfolding n by simp
qed

lemma train_special_prefix:
  "\<exists>v ms r. train t texts =
       Inr (t\<lparr>vocab := vocab_of_list v, merges := merges t @ ms,
              inv_vocab := Some (invert (vocab_of_list v))\<rparr>) \<and>
     distinct v \<and> v = special_tokens @ r"
proof -
  from train_result[of t texts] obtain v ms where
    1: "train t texts = Inr (t\<lparr>vocab := vocab_of_list v, merges := merges t @ ms,
              inv_vocab := Some (invert (vocab_of_list v))\<rparr>)"
    and 2: "distinct v"
    and 3: "v = init_vocab (word_freqs texts) @ map (\<lambda>bp. fst bp @ snd bp) ms" by blast
  from init_vocab_spec[of "word_freqs texts"] obtain r where
    "init_vocab (word_freqs texts) = special_tokens @ r" by blast
  with 3 have "v = special_tokens @ (r @ map (\<lambda>bp. fst bp @ snd bp) ms)" by simp
  with 1 2 show ?thesis by blast
qed

section \<open>Claims about \<open>train\<close>\<close>

text \<open>
  Claim C7. \<open>train\<close> returns, and in the vocabulary it leaves the keys are distinct, the
  set of ids is exactly \<open>{0, \<dots>, n - 1}\<close> for the vocabulary size \<open>n\<close>, and the special
  tokens pad, unk, bos and eos have the ids 0, 1, 2 and 3.
\<close>

theorem train_ids_contiguous:
  "\<exists>t'. train t texts = Inr t' \<and>
      distinct (map fst (vocab t')) \<and> contiguous_ids (vocab t') \<and>
      map_of (vocab t') pad_token = Some 0 \<and> map_of (vocab t') unk_token = Some 1 \<and>
      map_of (vocab t') bos_token = Some 2 \<and> map_of (vocab t') eos_token = Some 3"
proof -
  from train_special_prefix[of t texts] obtain v ms r where
    1: "train t texts = Inr (t\<lparr>vocab := vocab_of_list v, merges := merges t @ ms,
              inv_vocab := Some (invert (vocab_of_list v))\<rparr>)"
    and 2: "distinct v" and 3: "v = special_tokens @ r" by blast
  show ?thesis
    using 1 2 vocab_of_list_contiguous[OF 2] special_ids[OF 2 3]
    by (simp add: vocab_of_list_keys)
qed

text \<open>
  Claim C1, as stated: the trained vocabulary is never larger than \<open>vocab_size\<close>. It
  fails when the initial vocabulary is already larger: with \<open>vocab_size = 5\<close> and the
  corpus \<open>["abc"]\<close> the loop is not entered and the vocabulary keeps the four special
  tokens and three characters, seven entries.
\<close>

theorem train_exceeds_target_counterexample:
  "map_sum id within_target (train (init 5) [''abc'']) = Inr False"
  by code_simp

lemma train_step_grows:
  "train_step vs wfs s = Inr (Some s') \<Longrightarrow>
     length (ts_vocab s') = length (ts_vocab s) + 1 \<and>
     length (ts_merges s') = length (ts_merges s) + 1 \<and>
     int (length (ts_vocab s')) \<le> vs"
  unfolding train_step_def
  by (auto simp: Let_def split: if_splits sum.splits list.splits)

text \<open>
  Claim C1, amended. Each pass of the loop that merges a pair adds exactly one token to the
  vocabulary list and one rule to the merges, and the list then has at most \<open>vocab_size\<close>
  entries. \<open>train\<close> returns, and the size of the trained vocabulary is the size of the
  initial vocabulary (special tokens and distinct characters of the corpus words) plus the
  number of merges recorded by this call; it never exceeds the larger of \<open>vocab_size\<close> and
  the size of the initial vocabulary.
\<close>

theorem train_vocab_growth:
  "(\<forall>s'. train_step vs wfs s = Inr (Some s') \<longrightarrow>
       length (ts_vocab s') = length (ts_vocab s) + 1 \<and>
       length (ts_merges s') = length (ts_merges s) + 1 \<and>
       int (length (ts_vocab s')) \<le> vs) \<and>
   (\<exists>t'. train t texts = Inr t' \<and>
       length (vocab t') =
         length (init_vocab (word_freqs texts)) + (length (merges t') - length (merges t)) \<and>
       int (length (vocab t')) \<le>
         max (vocab_size t) (int (length (init_vocab (word_freqs texts)))))"
proof -
  from train_result[of t texts] obtain v ms where
    1: "train t texts = Inr (t\<lparr>vocab := vocab_of_list v, merges := merges t @ ms,
              inv_vocab := Some (invert (vocab_of_list v))\<rparr>)"
    and 2: "distinct v"
    and 3: "v = init_vocab (word_freqs texts) @ map (\<lambda>bp. fst bp @ snd bp) ms"
    and 4: "int (length v) \<le> max (vocab_size t) (int (length (init_vocab (word_freqs texts))))"
    by blast
  have len: "length (vocab_of_list v) = length v"
    using vocab_of_list_keys[OF 2] by (metis length_map)
  have "length v = length (init_vocab (word_freqs texts)) + length ms" using 3 by simp
  with 1 4 len have "\<exists>t'. train t texts = Inr t' \<and>
       length (vocab t') =
         length (init_vocab (word_freqs texts)) + (length (merges t') - length (merges t)) \<and>
       int (length (vocab t')) \<le>
         max (vocab_size t) (int (length (init_vocab (word_freqs texts))))"
    by simp
  then show ?thesis using train_step_grows by blast
qed

theorem train_vocab_growth_witness:
  "train_step 7 [(''ab'', 1)]
      \<lparr>ts_vocab = [''<|pad|>'', ''<|unk|>'', ''<|bos|>'', ''<|eos|>'', ''a'', ''b''],
       ts_merges = [], ts_splits = [''ab'' \<mapsto> [''a'', ''b'']]\<rparr>
    = Inr (Some \<lparr>ts_vocab = [''<|pad|>'', ''<|unk|>'', ''<|bos|>'', ''<|eos|>'', ''a'', ''b'', ''ab''],
                  ts_merges = [(''a'', ''b'')], ts_splits = [''ab'' \<mapsto> [''ab'']]\<rparr>) \<and>
   length [''<|pad|>'', ''<|unk|>'', ''<|bos|>'', ''<|eos|>'', ''a'', ''b'', ''ab''] =
     length [''<|pad|>'', ''<|unk|>'', ''<|bos|>'', ''<|eos|>'', ''a'', ''b''] + 1 \<and>
   (\<exists>t'. train (init 7) [''ab''] = Inr t' \<and> int (length (vocab t')) \<le> 7)"
proof -
  have step: "train_step 7 [(''ab'', 1)]
      \<lparr>ts_vocab = [''<|pad|>'', ''<|unk|>'', ''<|bos|>'', ''<|eos|>'', ''a'', ''b''],
       ts_merges = [], ts_splits = [''ab'' \<mapsto> [''a'', ''b'']]\<rparr>
    = Inr (Some \<lparr>ts_vocab = [''<|pad|>'', ''<|unk|>'', ''<|bos|>'', ''<|eos|>'', ''a'', ''b'', ''ab''],
                  ts_merges = [(''a'', ''b'')], ts_splits = [''ab'' \<mapsto> [''ab'']]\<rparr>)"
    by (simp add: train_step_def dict_add_def)
  have iv: "init_vocab (word_freqs [''ab'']) =
      [''<|pad|>'', ''<|unk|>'', ''<|bos|>'', ''<|eos|>'', ''a'', ''b'']"
    by code_simp
  show ?thesis
    using step train_vocab_growth [of 7 "[(''ab'', 1)]"
        "\<lparr>ts_vocab = [''<|pad|>'', ''<|unk|>'', ''<|bos|>'', ''<|eos|>'', ''a'', ''b''],
          ts_merges = [], ts_splits = [''ab'' \<mapsto> [''a'', ''b'']]\<rparr>"
        "init 7" "[''ab'']"]
    by (auto simp: iv init_def)
qed

text \<open>
  Claim C2, as stated: on the corpus \<open>["the cat sat on the mat", "the cat ate"]\<close> with
  \<open>vocab_size = 30\<close> the first merge recorded is \<open>(t, h)\<close>. It is not.
\<close>

theorem first_merge_counterexample:
  "map_sum id (take 1 \<circ> merges)
     (train (init 30) [''the cat sat on the mat'', ''the cat ate'']) \<noteq> Inr [(''t'', ''h'')]"
  by code_simp

text \<open>
  Claim C2, amended. On that corpus the first pair count gives \<open>(a, t)\<close> five
  occurrences (\<open>cat\<close> twice, \<open>sat\<close>, \<open>mat\<close>, \<open>ate\<close>) against three for \<open>(t, h)\<close>, and
  the merges recorded are \<open>(a, t)\<close> first, then \<open>(t, h)\<close>, and six more.
\<close>

theorem first_merge_is_at:
  "count_pairs (word_freqs [''the cat sat on the mat'', ''the cat ate''])
       (init_splits (word_freqs [''the cat sat on the mat'', ''the cat ate''])) [] =
     Inr [((''t'', ''h''), 3), ((''h'', ''e''), 3), ((''c'', ''a''), 2), ((''a'', ''t''), 5),
          ((''s'', ''a''), 1), ((''o'', ''n''), 1), ((''m'', ''a''), 1), ((''t'', ''e''), 1)] \<and>
   map_sum id merges (train (init 30) [''the cat sat on the mat'', ''the cat ate'']) =
     Inr [(''a'', ''t''), (''t'', ''h''), (''th'', ''e''), (''c'', ''at''),
          (''s'', ''at''), (''o'', ''n''), (''m'', ''at''), (''at'', ''e'')]"
  by code_simp

text \<open>
  \<open>train\<close> rebuilds the vocabulary from the corpus on every call, but it appends to
  \<open>self.merges\<close>, which only \<open>__init__\<close> empties. From two tokenizers that hold the same
  merges (none, for two tokenizers just constructed) and the same \<open>vocab_size\<close>, two runs
  on the same corpus agree.
\<close>

lemma train_from_equal_merges:
  assumes "vocab_size t1 = vocab_size t2" and "merges t1 = merges t2"
  shows "\<exists>r1 r2. train t1 texts = Inr r1 \<and> train t2 texts = Inr r2 \<and>
           vocab r1 = vocab r2 \<and> merges r1 = merges r2 \<and> inv_vocab r1 = inv_vocab r2"
proof -
  define L where "L = train_loop (vocab_size t1) (word_freqs texts)
      \<lparr>ts_vocab = init_vocab (word_freqs texts), ts_merges = merges t1,
       ts_splits = init_splits (word_freqs texts)\<rparr>"
  have e1: "train t1 texts = (case L of Inl e \<Rightarrow> Inl e | Inr s \<Rightarrow>
      Inr (t1\<lparr>vocab := vocab_of_list (ts_vocab s), merges := ts_merges s,
              inv_vocab := Some (invert (vocab_of_list (ts_vocab s)))\<rparr>))"
    unfolding train_def L_def Let_def ..
  have e2: "train t2 texts = (case L of Inl e \<Rightarrow> Inl e | Inr s \<Rightarrow>
      Inr (t2\<lparr>vocab := vocab_of_list (ts_vocab s), merges := ts_merges s,
              inv_vocab := Some (invert (vocab_of_list (ts_vocab s)))\<rparr>))"
    unfolding train_def L_def Let_def assms ..
  from train_result[of t1 texts] obtain r where "train t1 texts = Inr r" by blast
  with e1 obtain s where s: "L = Inr s" by (cases L) simp_all
  show ?thesis unfolding e1 e2 s by simp
qed

text \<open>
  Claim C3: running \<open>train\<close> twice on the same corpus with the same \<open>vocab_size\<close> gives
  the same vocabulary and the same merge sequence. On one tokenizer object it does not:
  with \<open>vocab_size = 7\<close> and the corpus \<open>["ab"]\<close> the first run leaves the merges
  \<open>[(a, b)]\<close>, and the second run, on the tokenizer the first one left, rebuilds the same
  vocabulary and leaves the merges \<open>[(a, b), (a, b)]\<close>.
\<close>

theorem retrain_appends_merges:
  "train (init 7) [''ab''] =
     Inr \<lparr>vocab_size = 7,
          vocab = [(''<|pad|>'', 0), (''<|unk|>'', 1), (''<|bos|>'', 2), (''<|eos|>'', 3),
                   (''a'', 4), (''b'', 5), (''ab'', 6)],
          merges = [(''a'', ''b'')],
          inv_vocab = Some [(0, ''<|pad|>''), (1, ''<|unk|>''), (2, ''<|bos|>''),
                            (3, ''<|eos|>''), (4, ''a''), (5, ''b''), (6, ''ab'')]\<rparr> \<and>
   train \<lparr>vocab_size = 7,
          vocab = [(''<|pad|>'', 0), (''<|unk|>'', 1), (''<|bos|>'', 2), (''<|eos|>'', 3),
                   (''a'', 4), (''b'', 5), (''ab'', 6)],
          merges = [(''a'', ''b'')],
          inv_vocab = Some [(0, ''<|pad|>''), (1, ''<|unk|>''), (2, ''<|bos|>''),
                            (3, ''<|eos|>''), (4, ''a''), (5, ''b''), (6, ''ab'')]\<rparr> [''ab''] =
     Inr \<lparr>vocab_size = 7,
          vocab = [(''<|pad|>'', 0), (''<|unk|>'', 1), (''<|bos|>'', 2), (''<|eos|>'', 3),
                   (''a'', 4), (''b'', 5), (''ab'', 6)],
          merges = [(''a'', ''b''), (''a'', ''b'')],
          inv_vocab = Some [(0, ''<|pad|>''), (1, ''<|unk|>''), (2, ''<|bos|>''),
                            (3, ''<|eos|>''), (4, ''a''), (5, ''b''), (6, ''ab'')]\<rparr>"
  by code_simp

section \<open>Claims about \<open>encode\<close> and \<open>decode\<close>\<close>

lemma encode_token_unk:
  "map_of (vocab t) unk_token = Some u \<Longrightarrow>
     encode_token t token = Inr (case map_of (vocab t) token of Some i \<Rightarrow> i | None \<Rightarrow> u)"
  by (simp add: encode_token_def split: option.splits)

lemma encode_tokens_unk:
  "map_of (vocab t) unk_token = Some u \<Longrightarrow>
     encode_tokens t acc toks =
       Inr (acc @ map (\<lambda>token. case map_of (vocab t) token of Some i \<Rightarrow> i | None \<Rightarrow> u) toks)"
  by (induction toks arbitrary: acc) (simp_all add: encode_token_unk)

lemma encode_words_unk:
  "map_of (vocab t) unk_token = Some u \<Longrightarrow>
     encode_words t acc ws =
       Inr (acc @ map (\<lambda>token. case map_of (vocab t) token of Some i \<Rightarrow> i | None \<Rightarrow> u)
                    (concat (map (tokenize_word t) ws)))"
  by (induction ws arbitrary: acc) (simp_all add: encode_tokens_unk)

lemma encode_unk:
  "map_of (vocab t) unk_token = Some u \<Longrightarrow>
     encode t text =
       Inr (map (\<lambda>token. case map_of (vocab t) token of Some i \<Rightarrow> i | None \<Rightarrow> u)
              (concat (map (tokenize_word t) (pre_tokenize text))))"
  by (simp add: encode_def encode_words_unk)

text \<open>
  Claim C6. On a trained tokenizer \<open>encode\<close> returns for every text: the unk token has
  id 1 in the vocabulary, and the result lists, for each symbol of each word in order, the
  id of the symbol, or 1 when the symbol is not in the vocabulary.
\<close>

theorem encode_never_fails:
  "\<exists>t'. train t texts = Inr t' \<and> map_of (vocab t') unk_token = Some 1 \<and>
     (\<forall>text. encode t' text =
        Inr (map (\<lambda>token. case map_of (vocab t') token of Some i \<Rightarrow> i | None \<Rightarrow> 1)
               (concat (map (tokenize_word t') (pre_tokenize text)))))"
proof -
  from train_special_prefix[of t texts] obtain v ms r where
    1: "train t texts = Inr (t\<lparr>vocab := vocab_of_list v, merges := merges t @ ms,
              inv_vocab := Some (invert (vocab_of_list v))\<rparr>)"
    and 2: "distinct v" and 3: "v = special_tokens @ r" by blast
  let ?t = "t\<lparr>vocab := vocab_of_list v, merges := merges t @ ms,
              inv_vocab := Some (invert (vocab_of_list v))\<rparr>"
  have u: "map_of (vocab ?t) unk_token = Some 1" using special_ids(2)[OF 2 3] by simp
  show ?thesis using 1 u encode_unk[OF u] by blast
qed

lemma decode_ids_eq:
  "decode_ids iv acc ids =
     acc @ filter (\<lambda>token. token \<notin> set special_tokens) (List.map_filter (map_of iv) ids)"
  by (induction ids arbitrary: acc) (simp_all add: List.map_filter_simps split: option.splits)

text \<open>
  Claim C8. On a tokenizer that has its inverse vocabulary (after \<open>train\<close> or \<open>load\<close>),
  \<open>decode\<close> maps each id to its token, drops the ids without an entry and the ids of
  special tokens, and joins the remaining tokens without a separator.
\<close>

theorem decode_drops_and_joins:
  "inv_vocab t = Some iv \<Longrightarrow>
     decode t ids =
       Inr (concat (filter (\<lambda>token. token \<notin> set special_tokens)
                      (List.map_filter (map_of iv) ids)))"
  by (simp add: decode_def decode_ids_eq)

theorem decode_drops_and_joins_witness:
  "decode \<lparr>vocab_size = 6, vocab = [], merges = [],
           inv_vocab = Some [(0, ''<|pad|>''), (4, ''a''), (5, ''bc'')]\<rparr> [5, 0, 9, 4, 5]
     = Inr ''bcabc''"
  using decode_drops_and_joins [of
      "\<lparr>vocab_size = 6, vocab = [], merges = [],
        inv_vocab = Some [(0, ''<|pad|>''), (4, ''a''), (5, ''bc'')]\<rparr>"
      "[(0, ''<|pad|>''), (4, ''a''), (5, ''bc'')]" "[5, 0, 9, 4, 5]"]
  by (simp add: List.map_filter_simps special_tokens_def pad_token_def unk_token_def
        bos_token_def eos_token_def)

section \<open>Claims about \<open>save\<close> and \<open>load\<close>\<close>

lemma encode_token_cong:
  "vocab a = vocab b \<Longrightarrow> encode_token a token = encode_token b token"
  unfolding encode_token_def by (erule subst) (rule refl)

lemma encode_tokens_cong:
  "vocab a = vocab b \<Longrightarrow> encode_tokens a acc toks = encode_tokens b acc toks"
proof (induction toks arbitrary: acc)
  case Nil
  show ?case by simp
next
  case (Cons token toks)
  have "encode_token a token = encode_token b token"
    using Cons.prems by (rule encode_token_cong)
  then show ?case using Cons.IH[OF Cons.prems] by (simp split: sum.splits)
qed

lemma tokenize_word_cong: "merges a = merges b \<Longrightarrow> tokenize_word a w = tokenize_word b w"
  by (simp add: tokenize_word_def)

lemma encode_words_cong:
  "vocab a = vocab b \<Longrightarrow> merges a = merges b \<Longrightarrow> encode_words a acc ws = encode_words b acc ws"
proof (induction ws arbitrary: acc)
  case Nil
  show ?case by simp
next
  case (Cons w ws)
  have "tokenize_word a w = tokenize_word b w"
    using Cons.prems(2) by (rule tokenize_word_cong)
  then have "encode_tokens a acc (tokenize_word a w) = encode_tokens b acc (tokenize_word b w)"
    using encode_tokens_cong[OF Cons.prems(1), of acc "tokenize_word b w"] by simp
  then show ?case using Cons.IH[OF Cons.prems] by (simp split: sum.splits)
qed

lemma encode_cong:
  "vocab a = vocab b \<Longrightarrow> merges a = merges b \<Longrightarrow> encode a text = encode b text"
  unfolding encode_def by (rule encode_words_cong)

lemma decode_cong: "inv_vocab a = inv_vocab b \<Longrightarrow> decode a ids = decode b ids"
  by (simp add: decode_def)

lemma load_save:
  "load u (save t) = Inr (u\<lparr>vocab := vocab t, merges := merges t, vocab_size := vocab_size t,
                            inv_vocab := Some (invert (vocab t))\<rparr>)"
  by (simp add: load_def save_def)

text \<open>
  Claim C4. For the tokenizer that \<open>train\<close> returns, loading what \<open>save\<close> wrote, into
  any tokenizer object, succeeds and gives a tokenizer with the same \<open>encode\<close> on every
  text and the same \<open>decode\<close> on every id sequence.
\<close>

theorem load_save_same_behaviour:
  "\<exists>t'. train t texts = Inr t' \<and>
     (\<exists>l. load u (save t') = Inr l \<and>
        (\<forall>text. encode l text = encode t' text) \<and>
        (\<forall>ids. decode l ids = decode t' ids))"
proof -
  from train_result[of t texts] obtain v ms where
    1: "train t texts = Inr (t\<lparr>vocab := vocab_of_list v, merges := merges t @ ms,
              inv_vocab := Some (invert (vocab_of_list v))\<rparr>)" by blast
  define t' where "t' = t\<lparr>vocab := vocab_of_list v, merges := merges t @ ms,
              inv_vocab := Some (invert (vocab_of_list v))\<rparr>"
  define l where "l = u\<lparr>vocab := vocab t', merges := merges t', vocab_size := vocab_size t',
                         inv_vocab := Some (invert (vocab t'))\<rparr>"
  have ld: "load u (save t') = Inr l" unfolding l_def by (rule load_save)
  have v: "vocab l = vocab t'" and m: "merges l = merges t'"
    and i: "inv_vocab l = inv_vocab t'"
    by (simp_all add: l_def t'_def)
  have "\<forall>text. encode l text = encode t' text" using encode_cong[OF v m] by blast
  moreover have "\<forall>ids. decode l ids = decode t' ids" using decode_cong[OF i] by blast
  ultimately show ?thesis using 1 ld unfolding t'_def by blast
qed

text \<open>
  Claim C5, as stated: \<open>load\<close> rejects a record whose ids are not contiguous from 0.
  It does not: the record with the single entry \<open>a \<mapsto> 5\<close> is loaded as it is.
\<close>

theorem load_accepts_gaps_counterexample:
  "\<not> contiguous_ids [(''a'', 5)] \<and>
   load (init 10) \<lparr>p_vocab = Some [(''a'', 5)], p_merges = Some [], p_vocab_size = Some 10\<rparr>
     = Inr \<lparr>vocab_size = 10, vocab = [(''a'', 5)], merges = [], inv_vocab = Some [(5, ''a'')]\<rparr>"
proof -
  have "(5::int) \<notin> {0 ..< 1}" by simp
  then have "{5::int} \<noteq> {0 ..< 1}" by blast
  then show ?thesis by (simp add: contiguous_ids_def load_def init_def invert_def)
qed

text \<open>
  Claim C5, amended. \<open>load\<close> fails, with \<open>KeyError\<close>, whenever the record lacks
  \<open>vocab\<close>, \<open>merges\<close> or \<open>vocab_size\<close>; a record that has the three fields is loaded as
  it is, whatever its ids.
\<close>

theorem load_checks_presence_only:
  "(p_vocab data = None \<or> p_merges data = None \<or> p_vocab_size data = None
      \<longrightarrow> (\<exists>field. load t data = Inl (KeyError field))) \<and>
   (\<forall>v ms n. p_vocab data = Some v \<and> p_merges data = Some ms \<and> p_vocab_size data = Some n
      \<longrightarrow> (\<exists>t'. load t data = Inr t' \<and> vocab t' = v \<and> merges t' = ms \<and> vocab_size t' = n \<and>
                inv_vocab t' = Some (invert v)))"
  by (auto simp: load_def split: option.splits)

theorem load_checks_presence_only_witness:
  "load (init 10) \<lparr>p_vocab = Some [(''a'', 0)], p_merges = None, p_vocab_size = Some 10\<rparr>
     = Inl (KeyError ''merges'') \<and>
   (\<exists>t'. load (init 10) \<lparr>p_vocab = Some [(''a'', 5)], p_merges = Some [], p_vocab_size = Some 10\<rparr>
            = Inr t' \<and> vocab t' = [(''a'', 5)])"
  using load_checks_presence_only [of
      "\<lparr>p_vocab = Some [(''a'', 0)], p_merges = None, p_vocab_size = Some 10\<rparr>" "init 10"]
    load_checks_presence_only [of
      "\<lparr>p_vocab = Some [(''a'', 5)], p_merges = Some [], p_vocab_size = Some 10\<rparr>" "init 10"]
  by (auto simp: load_def)

end
